theory Spec2Isabelle
  imports Main "HOL-Library.Word"
begin

section \<open>Package hashtree: the Merkle hash tree\<close>

subsection \<open>Bytes, nodes and the digest function\<close>

type_synonym byte = "8 word"
type_synonym bytes = "byte list"

text \<open>
  \<^verbatim>\<open>type HashTreeNode struct { Hash []byte; Left *HashTreeNode; Right *HashTreeNode }\<close>
  A nil pointer is \<open>None\<close>. Nodes are never mutated after their construction, so a
  pointer to a node is modelled by the node itself.
\<close>

datatype HashTreeNode =
  HashTreeNode (Hash: bytes) (Left: "HashTreeNode option") (Right: "HashTreeNode option")

text \<open>
  \<^verbatim>\<open>func computeHash(data []byte) []byte { hash := sha256.Sum256(data); return hash[:] }\<close>
  \<open>sha256.Sum256\<close> belongs to the Go standard library, not to this package: it is the
  parameter \<open>Sum256\<close> of every definition below, and every theorem holds for any
  function put in its place.
\<close>

definition computeHash :: "(bytes \<Rightarrow> bytes) \<Rightarrow> bytes \<Rightarrow> bytes" where
  "computeHash Sum256 data = Sum256 data"

subsection \<open>BuildHashTree\<close>

text \<open>
  The first loop of \<open>BuildHashTree\<close>:
  \<^verbatim>\<open>for i, leaf := range leaves { nodes[i] = &HashTreeNode{Hash: computeHash(leaf)} }\<close>
\<close>

definition leafNodes :: "(bytes \<Rightarrow> bytes) \<Rightarrow> bytes list \<Rightarrow> HashTreeNode list" where
  "leafNodes Sum256 leaves =
     map (\<lambda>leaf. HashTreeNode (computeHash Sum256 leaf) None None) leaves"

text \<open>
  The inner loop, \<^verbatim>\<open>for i := 0; i < len(nodes); i += 2\<close>, with the loop variable \<open>i\<close>
  and the slice \<open>nextLevel\<close> as arguments. \<open>append(left.Hash, right.Hash...)\<close> is the
  concatenation of the two digests: \<open>left.Hash\<close> is never written to, because a digest
  comes from \<open>hash[:]\<close> over a fresh array and has no spare capacity.
\<close>

function levelLoop ::
  "(bytes \<Rightarrow> bytes) \<Rightarrow> HashTreeNode list \<Rightarrow> nat \<Rightarrow> HashTreeNode list \<Rightarrow> HashTreeNode list"
where
  "levelLoop Sum256 nodes i nextLevel =
     (if i < length nodes then
        (if i + 1 < length nodes then
           (let left = nodes ! i;
                right = nodes ! (i + 1);
                hash = computeHash Sum256 (Hash left @ Hash right)
            in levelLoop Sum256 nodes (i + 2)
                 (nextLevel @ [HashTreeNode hash (Some left) (Some right)]))
         else levelLoop Sum256 nodes (i + 2) (nextLevel @ [nodes ! i]))
      else nextLevel)"
  by pat_completeness auto
termination
  by (relation "measure (\<lambda>(Sum256, nodes, i, nextLevel). length nodes - i)") auto

declare levelLoop.simps [simp del]

lemma length_levelLoop:
  "length (levelLoop Sum256 nodes i nextLevel) =
     length nextLevel + (length nodes - i + 1) div 2"
proof (induction Sum256 nodes i nextLevel rule: levelLoop.induct)
  case (1 Sum256 nodes i nextLevel)
  show ?case
  proof (cases "i < length nodes")
    case False
    then show ?thesis by (simp add: levelLoop.simps [of Sum256 nodes i nextLevel])
  next
    case inside: True
    show ?thesis
    proof (cases "i + 1 < length nodes")
      case True
      with inside "1.IH"(1) [OF inside True refl refl refl] show ?thesis
        by (simp add: levelLoop.simps [of Sum256 nodes i nextLevel] Let_def)
    next
      case False
      with inside "1.IH"(2) [OF inside False] show ?thesis
        by (simp add: levelLoop.simps [of Sum256 nodes i nextLevel])
    qed
  qed
qed

text \<open>The outer loop, \<^verbatim>\<open>for len(nodes) > 1 { ...; nodes = nextLevel }\<close>.\<close>

function reduceLoop :: "(bytes \<Rightarrow> bytes) \<Rightarrow> HashTreeNode list \<Rightarrow> HashTreeNode list" where
  "reduceLoop Sum256 nodes =
     (if length nodes > 1 then reduceLoop Sum256 (levelLoop Sum256 nodes 0 []) else nodes)"
  by pat_completeness auto
termination
  by (relation "measure (\<lambda>(Sum256, nodes). length nodes)")
     (auto simp: length_levelLoop)

declare reduceLoop.simps [simp del]

text \<open>
  \<^verbatim>\<open>return nodes[0]\<close>: indexing an empty slice panics with an index-out-of-range
  run-time error, which is a value of the model.
\<close>

datatype panic = IndexOutOfRange

definition BuildHashTree :: "(bytes \<Rightarrow> bytes) \<Rightarrow> bytes list \<Rightarrow> panic + HashTreeNode" where
  "BuildHashTree Sum256 leaves =
     (case reduceLoop Sum256 (leafNodes Sum256 leaves) of
        [] \<Rightarrow> Inl IndexOutOfRange
      | root # _ \<Rightarrow> Inr root)"

subsection \<open>The shape of one level and of the whole tree\<close>

text \<open>
  One pass of the inner loop, by recursion on the level: adjacent nodes are paired from
  the left, and a last node without a partner is passed on as it is.
\<close>

fun pairUp :: "(bytes \<Rightarrow> bytes) \<Rightarrow> HashTreeNode list \<Rightarrow> HashTreeNode list" where
  "pairUp Sum256 (left # right # rest) =
     HashTreeNode (computeHash Sum256 (Hash left @ Hash right)) (Some left) (Some right)
       # pairUp Sum256 rest"
| "pairUp Sum256 nodes = nodes"

text \<open>
  The invariant of the data model: a node has no child at all, or it has both and its
  digest is the digest of the left child's digest followed by the right child's.
\<close>

fun wellFormed :: "(bytes \<Rightarrow> bytes) \<Rightarrow> HashTreeNode \<Rightarrow> bool" where
  "wellFormed Sum256 (HashTreeNode h l r) =
     (case l of
        None \<Rightarrow> r = None
      | Some a \<Rightarrow>
          (case r of
             None \<Rightarrow> False
           | Some b \<Rightarrow>
               h = computeHash Sum256 (Hash a @ Hash b)
               \<and> wellFormed Sum256 a \<and> wellFormed Sum256 b))"

text \<open>The nodes without children, from left to right.\<close>

fun fringe :: "HashTreeNode \<Rightarrow> HashTreeNode list" where
  "fringe (HashTreeNode h l r) =
     (if l = None \<and> r = None then [HashTreeNode h None None]
      else (case l of None \<Rightarrow> [] | Some a \<Rightarrow> fringe a)
         @ (case r of None \<Rightarrow> [] | Some b \<Rightarrow> fringe b))"

text \<open>Every node of a tree, the root first.\<close>

fun subnodes :: "HashTreeNode \<Rightarrow> HashTreeNode list" where
  "subnodes (HashTreeNode h l r) =
     HashTreeNode h l r
       # (case l of None \<Rightarrow> [] | Some a \<Rightarrow> subnodes a)
       @ (case r of None \<Rightarrow> [] | Some b \<Rightarrow> subnodes b)"

definition internal :: "HashTreeNode \<Rightarrow> bool" where
  "internal n = (Left n \<noteq> None \<or> Right n \<noteq> None)"

section \<open>The leaf store\<close>

subsection \<open>Keys\<close>

text \<open>
  \<^verbatim>\<open>key := fmt.Sprintf("leaf-%d", i)\<close>. The verb \<open>%d\<close> prints an integer in decimal,
  with a minus sign when it is negative and with no leading zero. A Go string is a
  sequence of bytes, as a \<open>string\<close> is here, so \<open>[]byte(key)\<close> is the key itself.
\<close>

definition digitChar :: "nat \<Rightarrow> char" where
  "digitChar d = char_of (48 + d)"

fun formatNat :: "nat \<Rightarrow> string" where
  "formatNat n =
     (if n < 10 then [digitChar n] else formatNat (n div 10) @ [digitChar (n mod 10)])"

declare formatNat.simps [simp del]

definition Sprintf_d :: "int \<Rightarrow> string" where
  "Sprintf_d i = (if i < 0 then CHR ''-'' # formatNat (nat (- i)) else formatNat (nat i))"

definition leafKey :: "int \<Rightarrow> string" where
  "leafKey i = ''leaf-'' @ Sprintf_d i"

subsection \<open>The key-value store\<close>

text \<open>
  Modelled from the spec: the store is the goleveldb library, whose code is not part of
  this repository. The model follows the contract the spec states for it: \<open>put\<close>, \<open>get\<close>
  with a distinguished not-found error, \<open>delete\<close>, and a batch of staged puts that
  \<open>write\<close> applies atomically. Any call may fail; which call fails, and with which
  error, is the environment's choice: \<open>fault db n\<close> is the error with which the store
  fails the call number \<open>n\<close> (counted from 0 over the life of the handle), if it fails
  it. A failed call changes no entry. \<open>calls\<close> records the calls made on the handle, in
  order. Whether deleting a missing key reports not-found is a property of the store
  (\<open>delete_reports_missing\<close>): the spec's contract allows it, goleveldb itself does not
  report it.
\<close>

datatype error = ErrNotFound | ErrClosed | ErrReadOnly | ErrIO string

type_synonym Batch = "(string \<times> bytes) list"

datatype call =
  PutCall string bytes | GetCall string | DeleteCall string | WriteCall Batch

record DB =
  entries :: "string \<rightharpoonup> bytes"
  calls :: "call list"
  fault :: "nat \<Rightarrow> error option"
  delete_reports_missing :: bool

definition db_Put :: "DB \<Rightarrow> string \<Rightarrow> bytes \<Rightarrow> error option \<times> DB" where
  "db_Put db key val =
     (let db' = db\<lparr>calls := calls db @ [PutCall key val]\<rparr>
      in case fault db (length (calls db)) of
           Some e \<Rightarrow> (Some e, db')
         | None \<Rightarrow> (None, db'\<lparr>entries := (entries db)(key \<mapsto> val)\<rparr>))"

definition db_Get :: "DB \<Rightarrow> string \<Rightarrow> (error + bytes) \<times> DB" where
  "db_Get db key =
     (let db' = db\<lparr>calls := calls db @ [GetCall key]\<rparr>
      in case fault db (length (calls db)) of
           Some e \<Rightarrow> (Inl e, db')
         | None \<Rightarrow>
             (case entries db key of
                None \<Rightarrow> (Inl ErrNotFound, db')
              | Some val \<Rightarrow> (Inr val, db')))"

definition db_Delete :: "DB \<Rightarrow> string \<Rightarrow> error option \<times> DB" where
  "db_Delete db key =
     (let db' = db\<lparr>calls := calls db @ [DeleteCall key]\<rparr>
      in case fault db (length (calls db)) of
           Some e \<Rightarrow> (Some e, db')
         | None \<Rightarrow>
             (if entries db key = None \<and> delete_reports_missing db
              then (Some ErrNotFound, db')
              else (None, db'\<lparr>entries := (entries db)(key := None)\<rparr>)))"

text \<open>\<open>batch.Put\<close> appends one record to the batch.\<close>

definition batch_Put :: "Batch \<Rightarrow> string \<Rightarrow> bytes \<Rightarrow> Batch" where
  "batch_Put batch key val = batch @ [(key, val)]"

text \<open>The staged puts of a batch, applied in their order.\<close>

definition applyBatch :: "Batch \<Rightarrow> (string \<rightharpoonup> bytes) \<Rightarrow> (string \<rightharpoonup> bytes)" where
  "applyBatch batch m = fold (\<lambda>(key, val) m. m(key \<mapsto> val)) batch m"

definition db_Write :: "DB \<Rightarrow> Batch \<Rightarrow> error option \<times> DB" where
  "db_Write db batch =
     (let db' = db\<lparr>calls := calls db @ [WriteCall batch]\<rparr>
      in case fault db (length (calls db)) of
           Some e \<Rightarrow> (Some e, db')
         | None \<Rightarrow> (None, db'\<lparr>entries := applyBatch batch (entries db)\<rparr>))"

subsection \<open>The operations of the package on the store\<close>

text \<open>
  \<open>SaveLeavesToDB\<close>: \<^verbatim>\<open>for i, leaf := range leaves\<close> with the index \<open>i\<close> of the
  current leaf as an argument of the loop; \<^verbatim>\<open>if err != nil { return err }\<close>.
\<close>

fun SaveLeavesLoop :: "DB \<Rightarrow> nat \<Rightarrow> bytes list \<Rightarrow> error option \<times> DB" where
  "SaveLeavesLoop db i [] = (None, db)"
| "SaveLeavesLoop db i (leaf # rest) =
     (let key = leafKey (int i);
          (err, db') = db_Put db key leaf
      in if err \<noteq> None then (err, db') else SaveLeavesLoop db' (i + 1) rest)"

definition SaveLeavesToDB :: "DB \<Rightarrow> bytes list \<Rightarrow> error option \<times> DB" where
  "SaveLeavesToDB db leaves = SaveLeavesLoop db 0 leaves"

definition FetchLeafFromDB :: "DB \<Rightarrow> string \<Rightarrow> (error + bytes) \<times> DB" where
  "FetchLeafFromDB db key = db_Get db key"

text \<open>
  \<open>PruneOldLeaves\<close>: \<^verbatim>\<open>for i := 0; i < numLeaves; i++\<close>, and
  \<^verbatim>\<open>if err != nil && err != leveldb.ErrNotFound { return err }\<close>. \<open>numLeaves\<close> is any
  integer; \<open>i\<close> stays below it, so \<open>i++\<close> never overflows.
\<close>

function PruneLoop :: "DB \<Rightarrow> int \<Rightarrow> int \<Rightarrow> error option \<times> DB" where
  "PruneLoop db i numLeaves =
     (if i < numLeaves then
        (let key = leafKey i;
             (err, db') = db_Delete db key
         in if err \<noteq> None \<and> err \<noteq> Some ErrNotFound then (err, db')
            else PruneLoop db' (i + 1) numLeaves)
      else (None, db))"
  by pat_completeness auto
termination
  by (relation "measure (\<lambda>(db, i, numLeaves). nat (numLeaves - i))") auto

declare PruneLoop.simps [simp del]

definition PruneOldLeaves :: "DB \<Rightarrow> int \<Rightarrow> error option \<times> DB" where
  "PruneOldLeaves db numLeaves = PruneLoop db 0 numLeaves"

text \<open>
  \<open>SaveLeavesBatchToDB\<close>: the loop stages one put for each leaf in a new batch, and
  \<^verbatim>\<open>return db.Write(batch, nil)\<close> hands the batch to the store.
\<close>

fun BatchLoop :: "Batch \<Rightarrow> nat \<Rightarrow> bytes list \<Rightarrow> Batch" where
  "BatchLoop batch i [] = batch"
| "BatchLoop batch i (leaf # rest) =
     (let key = leafKey (int i)
      in BatchLoop (batch_Put batch key leaf) (i + 1) rest)"

definition SaveLeavesBatchToDB :: "DB \<Rightarrow> bytes list \<Rightarrow> error option \<times> DB" where
  "SaveLeavesBatchToDB db leaves = db_Write db (BatchLoop [] 0 leaves)"

definition FetchLeafConcurrent :: "DB \<Rightarrow> string \<Rightarrow> (error + bytes) \<times> DB" where
  "FetchLeafConcurrent db key = db_Get db key"

section \<open>Root persistence\<close>

text \<open>
  Modelled from the spec: \<open>ioutil.WriteFile\<close> and \<open>ioutil.ReadFile\<close> belong to the Go
  standard library and act on the file system of the host. The model is a flat file
  system: \<open>files\<close> gives each path that names a file its whole content, and \<open>refused\<close>
  gives the error with which the host refuses to open a path for writing, if it does.
  \<open>WriteFile\<close> creates or truncates the file and writes all of \<open>data\<close>; the mode is used
  when the file is created only, and the model keeps no mode bits. \<open>ReadFile\<close> returns
  the whole content of a file that exists: the model has no fault between a write that
  succeeded and the read that follows it.
\<close>

datatype os_error = ENOENT | EACCES | EINVAL | ENOMEM | EIO

record FS =
  files :: "string \<rightharpoonup> bytes"
  refused :: "string \<Rightarrow> os_error option"

definition WriteFile :: "FS \<Rightarrow> string \<Rightarrow> bytes \<Rightarrow> nat \<Rightarrow> os_error option \<times> FS" where
  "WriteFile fs filename data perm =
     (case refused fs filename of
        Some e \<Rightarrow> (Some e, fs)
      | None \<Rightarrow> (None, fs\<lparr>files := (files fs)(filename \<mapsto> data)\<rparr>))"

definition ReadFile :: "FS \<Rightarrow> string \<Rightarrow> os_error + bytes" where
  "ReadFile fs filename =
     (case files fs filename of None \<Rightarrow> Inl ENOENT | Some data \<Rightarrow> Inr data)"

text \<open>
  \<^verbatim>\<open>return ioutil.WriteFile(filename, root.Hash, 0644)\<close> and
  \<^verbatim>\<open>return ioutil.ReadFile(filename)\<close>. \<open>0644\<close> is octal.
\<close>

definition SaveRootHashToFile :: "FS \<Rightarrow> HashTreeNode \<Rightarrow> string \<Rightarrow> os_error option \<times> FS" where
  "SaveRootHashToFile fs root filename = WriteFile fs filename (Hash root) 420"

definition LoadRootHashFromFile :: "FS \<Rightarrow> string \<Rightarrow> os_error + bytes" where
  "LoadRootHashFromFile fs filename = ReadFile fs filename"

section \<open>Memory-mapped files\<close>

text \<open>
  \<^verbatim>\<open>var maxFileSize = 1 << 30\<close> is a package variable of type \<open>int\<close>, taken here
  as 64 bits wide (as it is on amd64 and arm64): its arithmetic wraps around and its
  comparisons are signed (\<open>sint\<close>). \<open>fmt.Println\<close> writes a line to the standard
  output, kept here with the package's variables.
\<close>

type_synonym go_int = "64 word"

record globals =
  maxFileSize :: go_int
  stdout :: "string list"

definition initial_globals :: globals where
  "initial_globals = \<lparr>maxFileSize = push_bit 30 1, stdout = []\<rparr>"

definition setMaxFileSize :: "go_int \<Rightarrow> globals \<Rightarrow> globals" where
  "setMaxFileSize sizeInGiB g =
     (if sint sizeInGiB \<le> 0 then
        g\<lparr>stdout := stdout g @ [''Invalid size. Must be greater than 0.'']\<rparr>
      else g\<lparr>maxFileSize := sizeInGiB * push_bit 30 1\<rparr>)"

text \<open>
  The host as \<open>MemoryMapFile\<close> sees it: what \<open>os.Open\<close> gives for a path (an error or a
  file descriptor), what \<open>file.Stat\<close> gives for the size of an open file (an \<open>int64\<close>),
  and what \<open>syscall.Mmap\<close> gives for a descriptor and a length. The function returns its
  result together with the system calls it made, in order; \<open>defer file.Close()\<close> runs
  when the function returns, once the file is open.
\<close>

record host =
  os_Open :: "string \<Rightarrow> os_error + nat"
  file_Stat :: "nat \<Rightarrow> os_error + go_int"
  syscall_Mmap :: "nat \<Rightarrow> go_int \<Rightarrow> os_error + bytes"

datatype syscall = OpenCall string | StatCall nat | MmapCall nat go_int | CloseCall nat

datatype map_error =
  ErrOpeningFile os_error
| ErrFileStats os_error
| ErrExceedsLimit go_int
| ErrMappingFile os_error

definition MemoryMapFile ::
  "host \<Rightarrow> globals \<Rightarrow> string \<Rightarrow> (map_error + bytes) \<times> syscall list"
where
  "MemoryMapFile h g filename =
     (case os_Open h filename of
        Inl err \<Rightarrow> (Inl (ErrOpeningFile err), [OpenCall filename])
      | Inr file \<Rightarrow>
          (case file_Stat h file of
             Inl err \<Rightarrow>
               (Inl (ErrFileStats err), [OpenCall filename, StatCall file, CloseCall file])
           | Inr size' \<Rightarrow>
               if sint size' > sint (maxFileSize g) then
                 (Inl (ErrExceedsLimit (maxFileSize g)),
                  [OpenCall filename, StatCall file, CloseCall file])
               else
                 (case syscall_Mmap h file size' of
                    Inl err \<Rightarrow>
                      (Inl (ErrMappingFile err),
                       [OpenCall filename, StatCall file, MmapCall file size', CloseCall file])
                  | Inr data \<Rightarrow>
                      (Inr data,
                       [OpenCall filename, StatCall file, MmapCall file size', CloseCall file]))))"

section \<open>Notions used in the statements and proofs\<close>

text \<open>
  The pairs \<open>(leaf-i, leaf\<^sub>0)\<close>, \<open>(leaf-(i+1), leaf\<^sub>1)\<close>, and so on, that the loops over
  the leaves form when they start at the index \<open>i\<close>; the puts and the deletes of a loop
  as recursion over the list of its keys; and a store with no entry that never fails.
\<close>

primrec leafPairsFrom :: "nat \<Rightarrow> bytes list \<Rightarrow> Batch" where
  "leafPairsFrom i [] = []"
| "leafPairsFrom i (leaf # rest) = (leafKey (int i), leaf) # leafPairsFrom (Suc i) rest"

fun putEach :: "DB \<Rightarrow> Batch \<Rightarrow> error option \<times> DB" where
  "putEach db [] = (None, db)"
| "putEach db ((key, val) # rest) =
     (case db_Put db key val of
        (Some e, db') \<Rightarrow> (Some e, db')
      | (None, db') \<Rightarrow> putEach db' rest)"

fun deleteEach :: "DB \<Rightarrow> string list \<Rightarrow> error option \<times> DB" where
  "deleteEach db [] = (None, db)"
| "deleteEach db (key # rest) =
     (case db_Delete db key of
        (Some e, db') \<Rightarrow> if e \<noteq> ErrNotFound then (Some e, db') else deleteEach db' rest
      | (None, db') \<Rightarrow> deleteEach db' rest)"

definition putCall :: "string \<times> bytes \<Rightarrow> call" where
  "putCall p = PutCall (fst p) (snd p)"

definition emptyDB :: DB where
  "emptyDB = \<lparr>entries = Map.empty, calls = [], fault = (\<lambda>n. None),
              delete_reports_missing = True\<rparr>"

text \<open>The outcomes of a delete after which \<open>PruneOldLeaves\<close> goes on.\<close>

definition notFatal :: "error option \<Rightarrow> bool" where
  "notFatal r = (r = None \<or> r = Some ErrNotFound)"

text \<open>A host on which every path opens as the descriptor 3, a file of \<open>n\<close> bytes that can be mapped.\<close>

definition hostWith :: "go_int \<Rightarrow> host" where
  "hostWith n =
     \<lparr>os_Open = (\<lambda>filename. Inr 3), file_Stat = (\<lambda>file. Inr n),
      syscall_Mmap = (\<lambda>file len. Inr (replicate (unat len) 0))\<rparr>"

section \<open>Properties of the hash tree\<close>

subsection \<open>The loops\<close>

lemma levelLoop_pairUp:
  "levelLoop Sum256 nodes i nextLevel = nextLevel @ pairUp Sum256 (drop i nodes)"
proof (induction Sum256 nodes i nextLevel rule: levelLoop.induct)
  case (1 Sum256 nodes i nextLevel)
  show ?case
  proof (cases "i < length nodes")
    case False
    then show ?thesis by (simp add: levelLoop.simps [of Sum256 nodes i nextLevel])
  next
    case inside: True
    show ?thesis
    proof (cases "i + 1 < length nodes")
      case True
      then have "drop i nodes = nodes ! i # nodes ! (i + 1) # drop (i + 2) nodes"
        by (simp add: Cons_nth_drop_Suc)
      with inside True "1.IH"(1) [OF inside True refl refl refl] show ?thesis
        by (simp add: levelLoop.simps [of Sum256 nodes i nextLevel] Let_def)
    next
      case False
      with inside have "drop i nodes = [nodes ! i]"
        by (metis Cons_nth_drop_Suc Suc_eq_plus1 drop_all not_less)
      with inside False "1.IH"(2) [OF inside False] show ?thesis
        by (simp add: levelLoop.simps [of Sum256 nodes i nextLevel])
    qed
  qed
qed

lemma reduceLoop_Nil: "reduceLoop Sum256 [] = []"
  by (simp add: reduceLoop.simps [of Sum256 "[]"])

lemma reduceLoop_single: "reduceLoop Sum256 [n] = [n]"
  by (simp add: reduceLoop.simps [of Sum256 "[n]"])

lemma reduceLoop_more:
  "reduceLoop Sum256 (a # b # rest) = reduceLoop Sum256 (pairUp Sum256 (a # b # rest))"
  by (simp add: reduceLoop.simps [of Sum256 "a # b # rest"] levelLoop_pairUp)

lemma wellFormed_pairUp:
  "list_all (wellFormed Sum256) nodes \<Longrightarrow> list_all (wellFormed Sum256) (pairUp Sum256 nodes)"
  by (induction Sum256 nodes rule: pairUp.induct) simp_all

lemma fringe_pairUp:
  "concat (map fringe (pairUp Sum256 nodes)) = concat (map fringe nodes)"
  by (induction Sum256 nodes rule: pairUp.induct) simp_all

lemma reduceLoop_length:
  "nodes \<noteq> [] \<Longrightarrow> length (reduceLoop Sum256 nodes) = 1"
proof (induction Sum256 nodes rule: reduceLoop.induct)
  case (1 Sum256 nodes)
  show ?case
  proof (cases "length nodes > 1")
    case True
    then have "length (levelLoop Sum256 nodes 0 []) \<noteq> 0"
      by (simp add: length_levelLoop)
    then have "levelLoop Sum256 nodes 0 [] \<noteq> []"
      by simp
    with True "1.IH" [OF True] show ?thesis
      by (simp add: reduceLoop.simps [of Sum256 nodes])
  next
    case False
    with "1.prems" have "length nodes = 1"
      by (cases nodes) simp_all
    with False show ?thesis
      by (simp add: reduceLoop.simps [of Sum256 nodes])
  qed
qed

lemma reduceLoop_invariant:
  "list_all (wellFormed Sum256) nodes \<Longrightarrow>
     list_all (wellFormed Sum256) (reduceLoop Sum256 nodes)
     \<and> concat (map fringe (reduceLoop Sum256 nodes)) = concat (map fringe nodes)"
proof (induction Sum256 nodes rule: reduceLoop.induct)
  case (1 Sum256 nodes)
  show ?case
  proof (cases "length nodes > 1")
    case True
    have step: "levelLoop Sum256 nodes 0 [] = pairUp Sum256 nodes"
      by (simp add: levelLoop_pairUp)
    from "1.prems" have "list_all (wellFormed Sum256) (levelLoop Sum256 nodes 0 [])"
      by (simp add: step wellFormed_pairUp)
    from "1.IH" [OF True this] True show ?thesis
      by (simp add: reduceLoop.simps [of Sum256 nodes] step fringe_pairUp)
  next
    case False
    with "1.prems" show ?thesis
      by (simp add: reduceLoop.simps [of Sum256 nodes])
  qed
qed

lemma wellFormed_leafNodes: "list_all (wellFormed Sum256) (leafNodes Sum256 leaves)"
  by (induction leaves) (simp_all add: leafNodes_def)

lemma fringe_leafNodes:
  "concat (map fringe (leafNodes Sum256 leaves)) = leafNodes Sum256 leaves"
  by (induction leaves) (simp_all add: leafNodes_def)

lemma wellFormed_subnodes:
  "wellFormed Sum256 t \<Longrightarrow> n \<in> set (subnodes t) \<Longrightarrow> internal n \<Longrightarrow>
     \<exists>a b. Left n = Some a \<and> Right n = Some b
           \<and> Hash n = computeHash Sum256 (Hash a @ Hash b)"
proof (induction Sum256 t rule: wellFormed.induct)
  case (1 Sum256 h l r)
  show ?case
  proof (cases l)
    case None
    with "1.prems" show ?thesis
      by (simp add: internal_def)
  next
    case left: (Some a)
    show ?thesis
    proof (cases r)
      case None
      with left "1.prems" show ?thesis by simp
    next
      case right: (Some b)
      from "1.prems"(1) left right
      have here: "h = computeHash Sum256 (Hash a @ Hash b)"
        and wa: "wellFormed Sum256 a" and wb: "wellFormed Sum256 b"
        by simp_all
      from "1.prems"(2) left right
      consider "n = HashTreeNode h l r" | "n \<in> set (subnodes a)" | "n \<in> set (subnodes b)"
        by auto
      then show ?thesis
      proof cases
        case 1
        with left right here show ?thesis by simp
      next
        case 2
        from "1.IH"(1) [OF left right wa 2 "1.prems"(3)] show ?thesis .
      next
        case 3
        from "1.IH"(2) [OF left right wb 3 "1.prems"(3)] show ?thesis .
      qed
    qed
  qed
qed

lemma BuildHashTree_root:
  assumes "leaves \<noteq> []"
  shows "\<exists>root. reduceLoop Sum256 (leafNodes Sum256 leaves) = [root]"
proof -
  from assms have "leafNodes Sum256 leaves \<noteq> []"
    by (simp add: leafNodes_def)
  then have "length (reduceLoop Sum256 (leafNodes Sum256 leaves)) = 1"
    by (rule reduceLoop_length)
  then show ?thesis
    by (cases "reduceLoop Sum256 (leafNodes Sum256 leaves)") simp_all
qed

subsection \<open>BuildHashTree\<close>

text \<open>
  Claim C1. For the three leaves \<open>[A, B, C]\<close> the first pass of the inner loop yields the
  two nodes \<open>P1\<close> and the leaf node of \<open>C\<close>: \<open>P1\<close> has the digest
  \<open>hash (hash A @ hash B)\<close> and the leaf nodes of \<open>A\<close> and \<open>B\<close> as children, and the
  node of \<open>C\<close> is the very leaf node, with the digest \<open>hash C\<close> and no children
  (neither hashed again nor doubled). \<open>BuildHashTree\<close> returns the root with the digest
  \<open>hash (hash (hash A @ hash B) @ hash C)\<close>, the left child \<open>P1\<close> and the right child
  the leaf node of \<open>C\<close>.
\<close>

theorem BuildHashTree_three_leaves:
  "levelLoop Sum256 (leafNodes Sum256 [A, B, C]) 0 [] =
     [HashTreeNode (computeHash Sum256 (computeHash Sum256 A @ computeHash Sum256 B))
        (Some (HashTreeNode (computeHash Sum256 A) None None))
        (Some (HashTreeNode (computeHash Sum256 B) None None)),
      HashTreeNode (computeHash Sum256 C) None None]
   \<and> BuildHashTree Sum256 [A, B, C] =
     Inr (HashTreeNode
            (computeHash Sum256
               (computeHash Sum256 (computeHash Sum256 A @ computeHash Sum256 B)
                @ computeHash Sum256 C))
            (Some (HashTreeNode
                     (computeHash Sum256 (computeHash Sum256 A @ computeHash Sum256 B))
                     (Some (HashTreeNode (computeHash Sum256 A) None None))
                     (Some (HashTreeNode (computeHash Sum256 B) None None))))
            (Some (HashTreeNode (computeHash Sum256 C) None None)))"
  by (simp add: BuildHashTree_def leafNodes_def levelLoop_pairUp
      reduceLoop_more reduceLoop_single)

text \<open>
  Claim C2. For a non-empty sequence of leaves \<open>BuildHashTree\<close> returns a root, and in
  the tree under it every internal node (a node with a child) has both children and its
  digest is the digest of the left child's digest followed by the right child's. The
  nodes without children are, from left to right, exactly the leaf nodes made from the
  input: the digest of each leaf, with no children.
\<close>

theorem BuildHashTree_invariant:
  assumes "leaves \<noteq> []"
  shows "\<exists>root. BuildHashTree Sum256 leaves = Inr root
           \<and> (\<forall>n \<in> set (subnodes root). internal n \<longrightarrow>
                 (\<exists>a b. Left n = Some a \<and> Right n = Some b
                        \<and> Hash n = computeHash Sum256 (Hash a @ Hash b)))
           \<and> fringe root = leafNodes Sum256 leaves
           \<and> (\<forall>n \<in> set (leafNodes Sum256 leaves). Left n = None \<and> Right n = None)"
proof -
  from BuildHashTree_root [OF assms] obtain root
    where root: "reduceLoop Sum256 (leafNodes Sum256 leaves) = [root]" ..
  have inv: "list_all (wellFormed Sum256) (reduceLoop Sum256 (leafNodes Sum256 leaves))
      \<and> concat (map fringe (reduceLoop Sum256 (leafNodes Sum256 leaves)))
        = concat (map fringe (leafNodes Sum256 leaves))"
    by (rule reduceLoop_invariant) (rule wellFormed_leafNodes)
  from inv root have wf: "wellFormed Sum256 root"
    by simp
  from inv root have fr: "fringe root = leafNodes Sum256 leaves"
    by (simp add: fringe_leafNodes)
  have built: "BuildHashTree Sum256 leaves = Inr root"
    by (simp add: BuildHashTree_def root)
  have childless: "\<forall>n \<in> set (leafNodes Sum256 leaves). Left n = None \<and> Right n = None"
    by (auto simp: leafNodes_def)
  from wf have "\<forall>n \<in> set (subnodes root). internal n \<longrightarrow>
      (\<exists>a b. Left n = Some a \<and> Right n = Some b
             \<and> Hash n = computeHash Sum256 (Hash a @ Hash b))"
    by (blast dest: wellFormed_subnodes)
  with built fr childless show ?thesis
    by blast
qed

theorem BuildHashTree_invariant_witness:
  "[[1], [2], [3 :: byte]] \<noteq> []
   \<and> (\<exists>root. BuildHashTree rev [[1], [2], [3]] = Inr root
         \<and> fringe root = leafNodes rev [[1], [2], [3]])"
proof -
  have ne: "[[1], [2], [3 :: byte]] \<noteq> []"
    by simp
  from BuildHashTree_invariant [OF ne, of rev] show ?thesis
    by blast
qed

text \<open>
  Claim C10. On the empty sequence of leaves no node is made, the outer loop is not
  entered, and \<open>nodes[0]\<close> reads an empty slice: \<open>BuildHashTree\<close> panics. It returns a
  root exactly when the sequence of leaves is not empty.
\<close>

theorem BuildHashTree_empty:
  "BuildHashTree Sum256 [] = Inl IndexOutOfRange
   \<and> ((\<exists>root. BuildHashTree Sum256 leaves = Inr root) \<longleftrightarrow> leaves \<noteq> [])"
proof -
  have empty: "BuildHashTree Sum256 [] = Inl IndexOutOfRange"
    by (simp add: BuildHashTree_def leafNodes_def reduceLoop_Nil)
  have "\<exists>root. BuildHashTree Sum256 leaves = Inr root" if "leaves \<noteq> []"
  proof -
    from BuildHashTree_root [OF that] obtain root
      where "reduceLoop Sum256 (leafNodes Sum256 leaves) = [root]" ..
    then show ?thesis
      by (simp add: BuildHashTree_def)
  qed
  with empty show ?thesis
    by (cases leaves) auto
qed

section \<open>Properties of the leaf store\<close>

subsection \<open>Keys are distinct\<close>

lemma digitChar_inject:
  assumes "a < 10" "b < 10" "digitChar a = digitChar b"
  shows "a = b"
proof -
  from assms(3) have "of_char (digitChar a) = (of_char (digitChar b) :: nat)"
    by simp
  with assms(1,2) show ?thesis
    by (simp add: digitChar_def)
qed

lemma formatNat_not_Nil: "formatNat n \<noteq> []"
  by (subst formatNat.simps) simp

lemma formatNat_inject: "formatNat a = formatNat b \<Longrightarrow> a = b"
proof (induction a arbitrary: b rule: formatNat.induct)
  case (1 a)
  show ?case
  proof (cases "a < 10")
    case small_a: True
    show ?thesis
    proof (cases "b < 10")
      case True
      with small_a "1.prems" show ?thesis
        by (simp add: formatNat.simps [of a] formatNat.simps [of b] digitChar_inject)
    next
      case False
      with small_a "1.prems" show ?thesis
        by (simp add: formatNat.simps [of a] formatNat.simps [of b]
            formatNat_not_Nil [THEN not_sym])
    qed
  next
    case big_a: False
    show ?thesis
    proof (cases "b < 10")
      case True
      with big_a "1.prems" show ?thesis
        by (simp add: formatNat.simps [of a] formatNat.simps [of b] formatNat_not_Nil)
    next
      case False
      with big_a "1.prems"
      have hi: "formatNat (a div 10) = formatNat (b div 10)"
        and lo: "digitChar (a mod 10) = digitChar (b mod 10)"
        by (simp_all add: formatNat.simps [of a] formatNat.simps [of b])
      from "1.IH" [OF big_a hi] have "a div 10 = b div 10" .
      moreover from lo have "a mod 10 = b mod 10"
        by (rule digitChar_inject [rotated 2]) simp_all
      ultimately show ?thesis
        by (metis div_mult_mod_eq)
    qed
  qed
qed

lemma leafKey_inject: "leafKey (int a) = leafKey (int b) \<longleftrightarrow> a = b"
  by (auto simp: leafKey_def Sprintf_d_def dest: formatNat_inject)

lemma leafKey_0: "leafKey 0 = ''leaf-0''"
  by code_simp



lemma leafKey_12: "leafKey 12 = ''leaf-12''"
  by code_simp

lemma applyBatch_Nil [simp]: "applyBatch [] m = m"
  by (simp add: applyBatch_def)

lemma applyBatch_Cons [simp]: "applyBatch ((key, val) # batch) m = applyBatch batch (m(key \<mapsto> val))"
  by (simp add: applyBatch_def)

lemma applyBatch_other: "key \<notin> fst ` set batch \<Longrightarrow> applyBatch batch m key = m key"
  by (induction batch arbitrary: m) auto

lemma applyBatch_distinct:
  "distinct (map fst batch) \<Longrightarrow> (key, val) \<in> set batch \<Longrightarrow> applyBatch batch m key = Some val"
proof (induction batch arbitrary: m)
  case Nil
  then show ?case by simp
next
  case (Cons p batch)
  obtain k v where p: "p = (k, v)" by (cases p)
  show ?case
  proof (cases "(key, val) = p")
    case True
    with Cons.prems p have "key \<notin> fst ` set batch" by auto
    with True p show ?thesis
      by (simp add: applyBatch_other)
  next
    case False
    with Cons p show ?thesis by auto
  qed
qed

subsection \<open>The loops over the leaves\<close>

lemma length_leafPairsFrom [simp]: "length (leafPairsFrom i leaves) = length leaves"
  by (induction leaves arbitrary: i) simp_all

lemma nth_leafPairsFrom:
  "j < length leaves \<Longrightarrow> leafPairsFrom i leaves ! j = (leafKey (int (i + j)), leaves ! j)"
proof (induction leaves arbitrary: i j)
  case Nil
  then show ?case by simp
next
  case (Cons leaf rest)
  then show ?case by (cases j) (simp_all add: ac_simps)
qed

lemma leafPairsFrom_eq:
  "leafPairsFrom i leaves = map (\<lambda>j. (leafKey (int (i + j)), leaves ! j)) [0..<length leaves]"
  by (rule nth_equalityI) (simp_all add: nth_leafPairsFrom)

lemma distinct_leafPairsFrom: "distinct (map fst (leafPairsFrom i leaves))"
proof -
  have "inj_on (\<lambda>j. leafKey (int (i + j))) (set [0..<length leaves])"
    by (rule inj_onI) (simp only: leafKey_inject add_left_cancel)
  then show ?thesis
    by (simp add: leafPairsFrom_eq distinct_map comp_def del: of_nat_add)
qed

lemma BatchLoop_eq: "BatchLoop batch i leaves = batch @ leafPairsFrom i leaves"
  by (induction leaves arbitrary: batch i) (simp_all add: batch_Put_def)

lemma SaveLeavesLoop_eq: "SaveLeavesLoop db i leaves = putEach db (leafPairsFrom i leaves)"
  by (induction leaves arbitrary: db i) (auto split: prod.splits option.splits)

lemma putEach_append:
  "putEach db (xs @ ys) =
     (case putEach db xs of (Some e, db') \<Rightarrow> (Some e, db') | (None, db') \<Rightarrow> putEach db' ys)"
  by (induction xs arbitrary: db) (auto split: prod.splits option.splits)

lemma putEach_ok:
  "(\<forall>j < length kvs. fault db (length (calls db) + j) = None) \<Longrightarrow>
     putEach db kvs =
       (None, db\<lparr>calls := calls db @ map putCall kvs,
                 entries := applyBatch kvs (entries db)\<rparr>)"
proof (induction kvs arbitrary: db)
  case Nil
  then show ?case by simp
next
  case (Cons p kvs)
  obtain key val where p: "p = (key, val)" by (cases p)
  let ?db' = "db\<lparr>calls := calls db @ [PutCall key val], entries := (entries db)(key \<mapsto> val)\<rparr>"
  from Cons.prems have first: "fault db (length (calls db)) = None"
    by force
  then have put: "db_Put db key val = (None, ?db')"
    by (simp add: db_Put_def)
  have "\<forall>j < length kvs. fault ?db' (length (calls ?db') + j) = None"
  proof (intro allI impI)
    fix j assume "j < length kvs"
    with Cons.prems have "fault db (length (calls db) + Suc j) = None"
      by (metis length_Cons Suc_less_eq)
    then show "fault ?db' (length (calls ?db') + j) = None"
      by simp
  qed
  then have "putEach ?db' kvs =
      (None, ?db'\<lparr>calls := calls ?db' @ map putCall kvs,
                   entries := applyBatch kvs (entries ?db')\<rparr>)"
    by (rule Cons.IH)
  moreover have "putEach db (p # kvs) = putEach ?db' kvs"
    by (simp add: p put)
  ultimately show ?case
    by (simp add: p putCall_def)
qed

lemma putEach_fail:
  assumes "\<forall>j < length xs. fault db (length (calls db) + j) = None"
    and "fault db (length (calls db) + length xs) = Some e"
  shows "putEach db (xs @ (key, val) # ys) =
       (Some e, db\<lparr>calls := calls db @ map putCall (xs @ [(key, val)]),
                   entries := applyBatch xs (entries db)\<rparr>)"
  using assms(2)
  by (simp add: putEach_append putEach_ok [OF assms(1)] db_Put_def putCall_def)

lemma take_leafPairsFrom: "take k (leafPairsFrom i leaves) = leafPairsFrom i (take k leaves)"
proof (induction leaves arbitrary: i k)
  case Nil
  then show ?case by simp
next
  case (Cons leaf rest)
  then show ?case by (cases k) simp_all
qed

lemma putCalls_leafPairs:
  "map putCall (leafPairsFrom 0 leaves) =
     map (\<lambda>j. PutCall (leafKey (int j)) (leaves ! j)) [0..<length leaves]"
  by (simp add: leafPairsFrom_eq putCall_def)

lemma keys_leafPairs:
  "fst ` set (leafPairsFrom 0 leaves) = (\<lambda>j. leafKey (int j)) ` {..<length leaves}"
  by (simp add: leafPairsFrom_eq image_image atLeast0LessThan)

lemma entries_leafPairs:
  assumes "j < length leaves"
  shows "applyBatch (leafPairsFrom 0 leaves) m (leafKey (int j)) = Some (leaves ! j)"
proof -
  from assms have "leafPairsFrom 0 leaves ! j \<in> set (leafPairsFrom 0 leaves)"
    by simp
  with assms have "(leafKey (int j), leaves ! j) \<in> set (leafPairsFrom 0 leaves)"
    by (simp add: nth_leafPairsFrom)
  with distinct_leafPairsFrom show ?thesis
    by (rule applyBatch_distinct)
qed

subsection \<open>SaveLeavesBatchToDB\<close>

text \<open>
  Claim C4. For leaves of any length \<open>N\<close>, \<open>SaveLeavesBatchToDB\<close> makes exactly one
  call on the store: one batch write, whose batch holds exactly the \<open>N\<close> pairs
  \<open>(leaf-0, leaf\<^sub>0)\<close> to \<open>(leaf-(N-1), leaf\<^sub>N\<^sub>-\<^sub>1)\<close> in this order. Its result is the
  result of that write. When the write succeeds, every one of the \<open>N\<close> keys holds its
  leaf and no other key has changed; when it fails, no entry of the store has changed.
\<close>

theorem SaveLeavesBatchToDB_atomic:
  "calls (snd (SaveLeavesBatchToDB db leaves)) =
     calls db @ [WriteCall (map (\<lambda>i. (leafKey (int i), leaves ! i)) [0..<length leaves])]
   \<and> fst (SaveLeavesBatchToDB db leaves) = fault db (length (calls db))
   \<and> (fst (SaveLeavesBatchToDB db leaves) = None \<longrightarrow>
        (\<forall>i < length leaves.
           entries (snd (SaveLeavesBatchToDB db leaves)) (leafKey (int i)) = Some (leaves ! i))
        \<and> (\<forall>key. key \<notin> (\<lambda>i. leafKey (int i)) ` {..<length leaves} \<longrightarrow>
              entries (snd (SaveLeavesBatchToDB db leaves)) key = entries db key))
   \<and> (fst (SaveLeavesBatchToDB db leaves) \<noteq> None \<longrightarrow>
        entries (snd (SaveLeavesBatchToDB db leaves)) = entries db)"
proof -
  have batch: "BatchLoop [] 0 leaves = leafPairsFrom 0 leaves"
    by (simp add: BatchLoop_eq)
  show ?thesis
  proof (cases "fault db (length (calls db))")
    case (Some e)
    then show ?thesis
      by (simp add: SaveLeavesBatchToDB_def db_Write_def batch leafPairsFrom_eq)
  next
    case None
    then have run: "SaveLeavesBatchToDB db leaves =
        (None, db\<lparr>calls := calls db @ [WriteCall (leafPairsFrom 0 leaves)],
                  entries := applyBatch (leafPairsFrom 0 leaves) (entries db)\<rparr>)"
      by (simp add: SaveLeavesBatchToDB_def db_Write_def batch)
    have "\<forall>key. key \<notin> (\<lambda>i. leafKey (int i)) ` {..<length leaves} \<longrightarrow>
        applyBatch (leafPairsFrom 0 leaves) (entries db) key = entries db key"
      by (simp add: applyBatch_other keys_leafPairs)
    with None show ?thesis
      by (simp add: run entries_leafPairs) (simp add: leafPairsFrom_eq)
  qed
qed

theorem SaveLeavesBatchToDB_atomic_witness:
  "fst (SaveLeavesBatchToDB emptyDB [[1], [2]]) = None
   \<and> entries (snd (SaveLeavesBatchToDB emptyDB [[1], [2]])) (leafKey (int 1)) = Some [2]
   \<and> fst (SaveLeavesBatchToDB (emptyDB\<lparr>fault := (\<lambda>n. Some ErrClosed)\<rparr>) [[1], [2]]) = Some ErrClosed
   \<and> entries (snd (SaveLeavesBatchToDB (emptyDB\<lparr>fault := (\<lambda>n. Some ErrClosed)\<rparr>) [[1], [2]]))
       = Map.empty"
proof -
  have ok: "fst (SaveLeavesBatchToDB emptyDB [[1], [2]]) = None"
    by (simp add: SaveLeavesBatchToDB_def db_Write_def emptyDB_def)
  have failed:
    "fst (SaveLeavesBatchToDB (emptyDB\<lparr>fault := (\<lambda>n. Some ErrClosed)\<rparr>) [[1], [2]]) = Some ErrClosed"
    by (simp add: SaveLeavesBatchToDB_def db_Write_def emptyDB_def)
  from SaveLeavesBatchToDB_atomic [of emptyDB "[[1], [2]]"] ok
  have "\<forall>i < 2. entries (snd (SaveLeavesBatchToDB emptyDB [[1], [2]])) (leafKey (int i))
      = Some ([[1], [2]] ! i)"
    by simp
  then have "entries (snd (SaveLeavesBatchToDB emptyDB [[1], [2]])) (leafKey (int 1))
      = Some ([[1], [2]] ! 1)"
    by (rule allE [of _ 1]) simp
  moreover
  from SaveLeavesBatchToDB_atomic [of "emptyDB\<lparr>fault := (\<lambda>n. Some ErrClosed)\<rparr>" "[[1], [2]]"] failed
  have "entries (snd (SaveLeavesBatchToDB (emptyDB\<lparr>fault := (\<lambda>n. Some ErrClosed)\<rparr>) [[1], [2]]))
      = entries (emptyDB\<lparr>fault := (\<lambda>n. Some ErrClosed)\<rparr>)"
    by simp
  ultimately show ?thesis
    using ok failed by (simp add: emptyDB_def)
qed

subsection \<open>SaveLeavesToDB\<close>

text \<open>
  Claim C6. \<open>SaveLeavesToDB\<close> puts each leaf under the key \<open>leaf-<index>\<close>, in order
  from the index 0. When no put fails it returns no error, having made one put for each
  leaf, and every key holds its leaf. When the put at the index \<open>k\<close> is the first to
  fail, with the error \<open>e\<close>, it returns \<open>e\<close> at once: the puts it made are those of the
  indices 0 to \<open>k\<close> and no more, the leaves of the indices below \<open>k\<close> are in the store
  (nothing is rolled back), and every other key is as it was.
\<close>

theorem SaveLeavesToDB_no_rollback:
  "((\<forall>j < length leaves. fault db (length (calls db) + j) = None) \<longrightarrow>
      fst (SaveLeavesToDB db leaves) = None
      \<and> calls (snd (SaveLeavesToDB db leaves)) =
          calls db @ map (\<lambda>j. PutCall (leafKey (int j)) (leaves ! j)) [0..<length leaves]
      \<and> (\<forall>j < length leaves.
            entries (snd (SaveLeavesToDB db leaves)) (leafKey (int j)) = Some (leaves ! j)))
   \<and> (k < length leaves
       \<and> (\<forall>j < k. fault db (length (calls db) + j) = None)
       \<and> fault db (length (calls db) + k) = Some e \<longrightarrow>
      fst (SaveLeavesToDB db leaves) = Some e
      \<and> calls (snd (SaveLeavesToDB db leaves)) =
          calls db @ map (\<lambda>j. PutCall (leafKey (int j)) (leaves ! j)) [0..<Suc k]
      \<and> (\<forall>j < k. entries (snd (SaveLeavesToDB db leaves)) (leafKey (int j)) = Some (leaves ! j))
      \<and> (\<forall>key. key \<notin> (\<lambda>j. leafKey (int j)) ` {..<k} \<longrightarrow>
            entries (snd (SaveLeavesToDB db leaves)) key = entries db key))"
proof (intro conjI impI)
  let ?L = "leafPairsFrom 0 leaves"
  have run: "SaveLeavesToDB db leaves = putEach db ?L"
    by (simp add: SaveLeavesToDB_def SaveLeavesLoop_eq)
  {
    assume ok: "\<forall>j < length leaves. fault db (length (calls db) + j) = None"
    then have res: "SaveLeavesToDB db leaves =
        (None, db\<lparr>calls := calls db @ map putCall ?L, entries := applyBatch ?L (entries db)\<rparr>)"
      by (simp add: run putEach_ok)
    show "fst (SaveLeavesToDB db leaves) = None"
      by (simp add: res)
    show "calls (snd (SaveLeavesToDB db leaves)) =
        calls db @ map (\<lambda>j. PutCall (leafKey (int j)) (leaves ! j)) [0..<length leaves]"
      by (simp add: res putCalls_leafPairs)
    show "\<forall>j < length leaves.
        entries (snd (SaveLeavesToDB db leaves)) (leafKey (int j)) = Some (leaves ! j)"
      by (simp add: res entries_leafPairs)
  }
  {
    assume fail: "k < length leaves
       \<and> (\<forall>j < k. fault db (length (calls db) + j) = None)
       \<and> fault db (length (calls db) + k) = Some e"
    then have k: "k < length leaves"
      and before: "\<forall>j < k. fault db (length (calls db) + j) = None"
      and at: "fault db (length (calls db) + k) = Some e"
      by simp_all
    let ?done = "leafPairsFrom 0 (take k leaves)"
    from k have len: "length ?done = k"
      by simp
    from k have split: "?L = ?done @ (leafKey (int k), leaves ! k) # drop (Suc k) ?L"
      using id_take_nth_drop [of k ?L] by (simp add: take_leafPairsFrom nth_leafPairsFrom)
    from before at have res: "putEach db (?done @ (leafKey (int k), leaves ! k) # drop (Suc k) ?L) =
        (Some e, db\<lparr>calls := calls db @ map putCall (?done @ [(leafKey (int k), leaves ! k)]),
                    entries := applyBatch ?done (entries db)\<rparr>)"
      by (intro putEach_fail) (simp_all only: len)
    from k have "take (Suc k) ?L = take k ?L @ [?L ! k]"
      by (simp add: take_Suc_conv_app_nth)
    with k have upto: "?done @ [(leafKey (int k), leaves ! k)] = leafPairsFrom 0 (take (Suc k) leaves)"
      by (simp add: take_leafPairsFrom nth_leafPairsFrom)
    have final: "SaveLeavesToDB db leaves =
        (Some e, db\<lparr>calls := calls db @ map putCall (leafPairsFrom 0 (take (Suc k) leaves)),
                    entries := applyBatch ?done (entries db)\<rparr>)"
      using run split res upto by simp
    show "fst (SaveLeavesToDB db leaves) = Some e"
      by (simp add: final)
    from k have "length (take (Suc k) leaves) = Suc k"
      by simp
    then have "map putCall (leafPairsFrom 0 (take (Suc k) leaves)) =
        map (\<lambda>j. PutCall (leafKey (int j)) (take (Suc k) leaves ! j)) [0..<Suc k]"
      by (simp only: putCalls_leafPairs)
    also have "\<dots> = map (\<lambda>j. PutCall (leafKey (int j)) (leaves ! j)) [0..<Suc k]"
      by (rule map_cong) auto
    finally show "calls (snd (SaveLeavesToDB db leaves)) =
        calls db @ map (\<lambda>j. PutCall (leafKey (int j)) (leaves ! j)) [0..<Suc k]"
      by (simp add: final)
    from k show "\<forall>j < k. entries (snd (SaveLeavesToDB db leaves)) (leafKey (int j)) = Some (leaves ! j)"
      by (simp add: final entries_leafPairs)
    from k show "\<forall>key. key \<notin> (\<lambda>j. leafKey (int j)) ` {..<k} \<longrightarrow>
        entries (snd (SaveLeavesToDB db leaves)) key = entries db key"
      by (simp add: final applyBatch_other keys_leafPairs min_def)
  }
qed

theorem SaveLeavesToDB_no_rollback_witness:
  "fst (SaveLeavesToDB (emptyDB\<lparr>fault := (\<lambda>n. if n = 1 then Some ErrClosed else None)\<rparr>)
          [[1], [2], [3]]) = Some ErrClosed
   \<and> entries (snd (SaveLeavesToDB
          (emptyDB\<lparr>fault := (\<lambda>n. if n = 1 then Some ErrClosed else None)\<rparr>) [[1], [2], [3]]))
        (leafKey (int 0)) = Some [1]
   \<and> fst (SaveLeavesToDB emptyDB [[1], [2], [3]]) = None"
proof -
  let ?db = "emptyDB\<lparr>fault := (\<lambda>n. if n = 1 then Some ErrClosed else None)\<rparr>"
  let ?leaves = "[[1], [2], [3 :: byte]]"
  have hyp: "1 < length ?leaves
      \<and> (\<forall>j < 1. fault ?db (length (calls ?db) + j) = None)
      \<and> fault ?db (length (calls ?db) + 1) = Some ErrClosed"
    by (simp add: emptyDB_def)
  have ok: "\<forall>j < length ?leaves. fault emptyDB (length (calls emptyDB) + j) = None"
    by (simp add: emptyDB_def)
  from SaveLeavesToDB_no_rollback [where db = ?db and leaves = ?leaves and k = 1 and e = ErrClosed] hyp
  have failed: "fst (SaveLeavesToDB ?db ?leaves) = Some ErrClosed"
    and kept: "\<forall>j < 1. entries (snd (SaveLeavesToDB ?db ?leaves)) (leafKey (int j)) = Some (?leaves ! j)"
    by blast+
  from kept have "entries (snd (SaveLeavesToDB ?db ?leaves)) (leafKey (int 0)) = Some (?leaves ! 0)"
    by (rule allE [of _ 0]) simp
  moreover
  from SaveLeavesToDB_no_rollback [where db = emptyDB and leaves = ?leaves and k = 0 and e = ErrClosed] ok
  have "fst (SaveLeavesToDB emptyDB ?leaves) = None"
    by blast
  ultimately show ?thesis
    using failed by simp
qed

subsection \<open>PruneOldLeaves\<close>

lemma PruneLoop_eq:
  "PruneLoop db (int i) n = deleteEach db (map (\<lambda>j. leafKey (int j)) [i..<nat n])"
proof (induction "nat n - i" arbitrary: i db)
  case 0
  then have "\<not> int i < n" by simp
  with 0 show ?case
    by (simp add: PruneLoop.simps [of db "int i" n])
next
  case (Suc d)
  then have inside: "int i < n" and less: "i < nat n"
    by simp_all
  from Suc have d: "d = nat n - Suc i"
    by simp
  have next_i: "int i + 1 = int (Suc i)"
    by simp
  from less have keys: "[i..<nat n] = i # [Suc i..<nat n]"
    by (rule upt_conv_Cons)
  show ?case
    using inside Suc.hyps(1) [OF d]
    by (simp add: PruneLoop.simps [of db "int i" n] keys next_i del: of_nat_Suc
        split: prod.splits option.splits)
qed

lemma deleteEach_Cons_cases:
  obtains
    (stop) e where "fault db (length (calls db)) = Some e" and "e \<noteq> ErrNotFound"
      and "deleteEach db (key # rest) = (Some e, db\<lparr>calls := calls db @ [DeleteCall key]\<rparr>)"
  | (continue) db' where "notFatal (fault db (length (calls db)))"
      and "deleteEach db (key # rest) = deleteEach db' rest"
      and "calls db' = calls db @ [DeleteCall key]"
      and "fault db' = fault db"
      and "delete_reports_missing db' = delete_reports_missing db"
      and "entries db' = entries db \<or> entries db' = (entries db)(key := None)"
      and "fault db (length (calls db)) = None \<longrightarrow> entries db' key = None"
proof (cases "fault db (length (calls db))")
  case (Some e)
  let ?db' = "db\<lparr>calls := calls db @ [DeleteCall key]\<rparr>"
  from Some have del: "db_Delete db key = (Some e, ?db')"
    by (simp add: db_Delete_def)
  show ?thesis
  proof (cases "e = ErrNotFound")
    case False
    with Some del show ?thesis
      by (intro stop [of e]) simp_all
  next
    case True
    with Some del show ?thesis
      by (intro continue [of ?db']) (simp_all add: notFatal_def)
  qed
next
  case None
  show ?thesis
  proof (cases "entries db key = None \<and> delete_reports_missing db")
    case True
    let ?db' = "db\<lparr>calls := calls db @ [DeleteCall key]\<rparr>"
    from None True have "db_Delete db key = (Some ErrNotFound, ?db')"
      by (simp add: db_Delete_def)
    with None True show ?thesis
      by (intro continue [of ?db']) (simp_all add: notFatal_def)
  next
    case False
    let ?db' = "db\<lparr>calls := calls db @ [DeleteCall key], entries := (entries db)(key := None)\<rparr>"
    from None False have "db_Delete db key = (None, ?db')"
      by (auto simp: db_Delete_def Let_def)
    with None show ?thesis
      by (intro continue [of ?db']) (simp_all add: notFatal_def)
  qed
qed

lemma deleteEach_frame:
  "fault (snd (deleteEach db keys)) = fault db
   \<and> delete_reports_missing (snd (deleteEach db keys)) = delete_reports_missing db"
proof (induction keys arbitrary: db)
  case Nil
  then show ?case by simp
next
  case (Cons key rest)
  show ?case
  proof (cases rule: deleteEach_Cons_cases [of db key rest])
    case (stop e)
    then show ?thesis by simp
  next
    case (continue db')
    with Cons.IH [of db'] show ?thesis by simp
  qed
qed

lemma deleteEach_other:
  "key \<notin> set keys \<Longrightarrow> entries (snd (deleteEach db keys)) key = entries db key"
proof (induction keys arbitrary: db)
  case Nil
  then show ?case by simp
next
  case (Cons k rest)
  then have ne: "key \<noteq> k" and rest: "key \<notin> set rest"
    by simp_all
  show ?case
  proof (cases rule: deleteEach_Cons_cases [of db k rest])
    case (stop e)
    then show ?thesis by simp
  next
    case (continue db')
    from continue(6) ne have "entries db' key = entries db key"
      by auto
    with Cons.IH [OF rest, of db'] continue(2) show ?thesis by simp
  qed
qed

lemma deleteEach_shrink:
  "entries db key = None \<Longrightarrow> entries (snd (deleteEach db keys)) key = None"
proof (induction keys arbitrary: db)
  case Nil
  then show ?case by simp
next
  case (Cons k rest)
  show ?case
  proof (cases rule: deleteEach_Cons_cases [of db k rest])
    case (stop e)
    with Cons.prems show ?thesis by simp
  next
    case (continue db')
    from continue(6) Cons.prems have "entries db' key = None"
      by auto
    from Cons.IH [OF this] continue(2) show ?thesis by simp
  qed
qed

lemma deleteEach_ok:
  "(\<forall>j < length keys. notFatal (fault db (length (calls db) + j))) \<Longrightarrow>
     fst (deleteEach db keys) = None
     \<and> calls (snd (deleteEach db keys)) = calls db @ map DeleteCall keys"
proof (induction keys arbitrary: db)
  case Nil
  then show ?case by simp
next
  case (Cons k rest)
  from Cons.prems have first: "notFatal (fault db (length (calls db)))"
    by force
  show ?case
  proof (cases rule: deleteEach_Cons_cases [of db k rest])
    case (stop e)
    with first show ?thesis by (simp add: notFatal_def)
  next
    case (continue db')
    have "\<forall>j < length rest. notFatal (fault db' (length (calls db') + j))"
    proof (intro allI impI)
      fix j assume "j < length rest"
      with Cons.prems have "notFatal (fault db (length (calls db) + Suc j))"
        by (metis length_Cons Suc_less_eq)
      with continue(3,4) show "notFatal (fault db' (length (calls db') + j))"
        by simp
    qed
    from Cons.IH [OF this] continue(2,3) show ?thesis by simp
  qed
qed

lemma deleteEach_deleted:
  "j < length keys \<Longrightarrow> fault db (length (calls db) + j) = None \<Longrightarrow>
     (\<forall>i < j. notFatal (fault db (length (calls db) + i))) \<Longrightarrow>
     entries (snd (deleteEach db keys)) (keys ! j) = None"
proof (induction keys arbitrary: db j)
  case Nil
  then show ?case by simp
next
  case (Cons k rest)
  show ?case
  proof (cases j)
    case 0
    with Cons.prems have now: "fault db (length (calls db)) = None"
      by simp
    show ?thesis
    proof (cases rule: deleteEach_Cons_cases [of db k rest])
      case (stop e)
      with now show ?thesis by simp
    next
      case (continue db')
      with now have "entries db' k = None" by simp
      then have "entries (snd (deleteEach db' rest)) k = None"
        by (rule deleteEach_shrink)
      with 0 continue(2) show ?thesis by simp
    qed
  next
    case (Suc j')
    from Cons.prems(3) Suc have first: "notFatal (fault db (length (calls db)))"
      by force
    show ?thesis
    proof (cases rule: deleteEach_Cons_cases [of db k rest])
      case (stop e)
      with first show ?thesis by (simp add: notFatal_def)
    next
      case (continue db')
      from Cons.prems(1) Suc have a: "j' < length rest" by simp
      from Cons.prems(2) Suc continue(3,4)
      have b: "fault db' (length (calls db') + j') = None" by simp
      have c: "\<forall>i < j'. notFatal (fault db' (length (calls db') + i))"
      proof (intro allI impI)
        fix i assume "i < j'"
        with Suc have "Suc i < j"
          by simp
        with Cons.prems(3) have "notFatal (fault db (length (calls db) + Suc i))"
          by blast
        with continue(3,4) show "notFatal (fault db' (length (calls db') + i))"
          by simp
      qed
      from Cons.IH [OF a b c] Suc continue(2) show ?thesis by simp
    qed
  qed
qed

lemma deleteEach_append:
  "deleteEach db (xs @ ys) =
     (case deleteEach db xs of (Some e, db') \<Rightarrow> (Some e, db') | (None, db') \<Rightarrow> deleteEach db' ys)"
proof (induction xs arbitrary: db)
  case Nil
  then show ?case by simp
next
  case (Cons k rest)
  show ?case
  proof (cases rule: deleteEach_Cons_cases [of db k "rest @ ys"])
    case (stop e)
    then have "db_Delete db k = (Some e, db\<lparr>calls := calls db @ [DeleteCall k]\<rparr>)"
      by (simp add: db_Delete_def)
    with stop show ?thesis by simp
  next
    case (continue db')
    then show ?thesis
      by (simp add: Cons.IH split: prod.splits option.splits if_splits)
  qed
qed

lemma deleteEach_abort:
  assumes ok: "\<forall>j < length xs. notFatal (fault db (length (calls db) + j))"
    and at: "fault db (length (calls db) + length xs) = Some e"
    and fatal: "e \<noteq> ErrNotFound"
  shows "deleteEach db (xs @ key # ys) =
     (Some e, (snd (deleteEach db xs))\<lparr>calls := calls db @ map DeleteCall (xs @ [key])\<rparr>)"
proof -
  obtain r db1 where run: "deleteEach db xs = (r, db1)"
    by (cases "deleteEach db xs")
  from deleteEach_ok [OF ok] run have r: "r = None"
    and calls1: "calls db1 = calls db @ map DeleteCall xs"
    by simp_all
  from deleteEach_frame [of db xs] run have fault1: "fault db1 = fault db"
    by simp
  from at calls1 fault1 have at1: "fault db1 (length (calls db1)) = Some e"
    by simp
  have "deleteEach db1 (key # ys) = (Some e, db1\<lparr>calls := calls db1 @ [DeleteCall key]\<rparr>)"
  proof (cases rule: deleteEach_Cons_cases [of db1 key ys])
    case (stop e')
    with at1 show ?thesis by simp
  next
    case (continue db')
    with at1 fatal show ?thesis by (simp add: notFatal_def)
  qed
  with run r calls1 show ?thesis
    by (simp add: deleteEach_append)
qed

lemma PruneOldLeaves_eq:
  "PruneOldLeaves db n = deleteEach db (map (\<lambda>j. leafKey (int j)) [0..<nat n])"
  using PruneLoop_eq [of db 0 n] by (simp add: PruneOldLeaves_def)

text \<open>
  Claim C5. \<open>PruneOldLeaves db n\<close> deletes the keys \<open>leaf-0\<close> to \<open>leaf-(n-1)\<close> in this
  order. A delete that reports not-found is passed over: when no delete fails with
  another error, the function returns no error after all \<open>n\<close> deletes, and every key
  whose delete the store carried out is absent. When the delete at the index \<open>k\<close> is the
  first to fail with an error \<open>e\<close> other than not-found, the function returns \<open>e\<close> at
  once: the deletes it made are those of the indices 0 to \<open>k\<close>, and the keys of the
  indices from \<open>k\<close> on are as they were. Hence two calls in a row with the same count,
  on a store that fails no delete with an error other than not-found, both return no
  error.
\<close>

theorem PruneOldLeaves_policy:
  "((\<forall>j < nat n. notFatal (fault db (length (calls db) + j))) \<longrightarrow>
      fst (PruneOldLeaves db n) = None
      \<and> calls (snd (PruneOldLeaves db n)) =
          calls db @ map (\<lambda>j. DeleteCall (leafKey (int j))) [0..<nat n]
      \<and> (\<forall>j < nat n. fault db (length (calls db) + j) = None \<longrightarrow>
            entries (snd (PruneOldLeaves db n)) (leafKey (int j)) = None))
   \<and> (k < nat n
       \<and> (\<forall>j < k. notFatal (fault db (length (calls db) + j)))
       \<and> fault db (length (calls db) + k) = Some e \<and> e \<noteq> ErrNotFound \<longrightarrow>
      fst (PruneOldLeaves db n) = Some e
      \<and> calls (snd (PruneOldLeaves db n)) =
          calls db @ map (\<lambda>j. DeleteCall (leafKey (int j))) [0..<Suc k]
      \<and> (\<forall>j \<ge> k. entries (snd (PruneOldLeaves db n)) (leafKey (int j))
            = entries db (leafKey (int j))))
   \<and> ((\<forall>j < 2 * nat n. notFatal (fault db (length (calls db) + j))) \<longrightarrow>
      fst (PruneOldLeaves db n) = None
      \<and> fst (PruneOldLeaves (snd (PruneOldLeaves db n)) n) = None)"
proof (intro conjI impI)
  let ?keys = "map (\<lambda>j. leafKey (int j)) [0..<nat n]"
  have len: "length ?keys = nat n"
    by simp
  {
    assume ok: "\<forall>j < nat n. notFatal (fault db (length (calls db) + j))"
    then have ok': "\<forall>j < length ?keys. notFatal (fault db (length (calls db) + j))"
      by simp
    from deleteEach_ok [OF ok'] show "fst (PruneOldLeaves db n) = None"
      by (simp add: PruneOldLeaves_eq)
    from deleteEach_ok [OF ok']
    show "calls (snd (PruneOldLeaves db n)) =
        calls db @ map (\<lambda>j. DeleteCall (leafKey (int j))) [0..<nat n]"
      by (simp add: PruneOldLeaves_eq comp_def)
    show "\<forall>j < nat n. fault db (length (calls db) + j) = None \<longrightarrow>
        entries (snd (PruneOldLeaves db n)) (leafKey (int j)) = None"
    proof (intro allI impI)
      fix j assume j: "j < nat n" and none: "fault db (length (calls db) + j) = None"
      from j have a: "j < length ?keys" by simp
      from ok j have c: "\<forall>i < j. notFatal (fault db (length (calls db) + i))"
        by simp
      from deleteEach_deleted [OF a none c] j
      show "entries (snd (PruneOldLeaves db n)) (leafKey (int j)) = None"
        by (simp add: PruneOldLeaves_eq)
    qed
  }
  {
    assume "k < nat n
       \<and> (\<forall>j < k. notFatal (fault db (length (calls db) + j)))
       \<and> fault db (length (calls db) + k) = Some e \<and> e \<noteq> ErrNotFound"
    then have k: "k < nat n"
      and before: "\<forall>j < k. notFatal (fault db (length (calls db) + j))"
      and at: "fault db (length (calls db) + k) = Some e"
      and fatal: "e \<noteq> ErrNotFound"
      by simp_all
    let ?xs = "map (\<lambda>j. leafKey (int j)) [0..<k]"
    let ?ys = "map (\<lambda>j. leafKey (int j)) [Suc k..<nat n]"
    from k have "[0..<nat n] = [0..<k] @ k # [Suc k..<nat n]"
      by (metis le_add1 less_imp_le_nat upt_add_eq_append upt_conv_Cons plus_nat.add_0
          le_add_diff_inverse)
    then have split: "?keys = ?xs @ leafKey (int k) # ?ys"
      by simp
    have lenx: "length ?xs = k"
      by simp
    from before have ok: "\<forall>j < length ?xs. notFatal (fault db (length (calls db) + j))"
      by simp
    from at have at': "fault db (length (calls db) + length ?xs) = Some e"
      by simp
    have res: "PruneOldLeaves db n =
        (Some e, (snd (deleteEach db ?xs))\<lparr>calls :=
           calls db @ map DeleteCall (?xs @ [leafKey (int k)])\<rparr>)"
      unfolding PruneOldLeaves_eq split by (rule deleteEach_abort [OF ok at' fatal])
    show "fst (PruneOldLeaves db n) = Some e"
      by (simp add: res)
    show "calls (snd (PruneOldLeaves db n)) =
        calls db @ map (\<lambda>j. DeleteCall (leafKey (int j))) [0..<Suc k]"
      by (simp add: res comp_def)
    show "\<forall>j \<ge> k. entries (snd (PruneOldLeaves db n)) (leafKey (int j))
        = entries db (leafKey (int j))"
    proof (intro allI impI)
      fix j assume "k \<le> j"
      then have "leafKey (int j) \<notin> set ?xs"
        by (auto simp: leafKey_inject)
      then have "entries (snd (deleteEach db ?xs)) (leafKey (int j)) = entries db (leafKey (int j))"
        by (rule deleteEach_other)
      then show "entries (snd (PruneOldLeaves db n)) (leafKey (int j))
          = entries db (leafKey (int j))"
        by (simp add: res)
    qed
  }
  {
    assume twice: "\<forall>j < 2 * nat n. notFatal (fault db (length (calls db) + j))"
    then have ok1: "\<forall>j < length ?keys. notFatal (fault db (length (calls db) + j))"
      by simp
    from deleteEach_ok [OF ok1] show first: "fst (PruneOldLeaves db n) = None"
      by (simp add: PruneOldLeaves_eq)
    let ?db1 = "snd (PruneOldLeaves db n)"
    from deleteEach_ok [OF ok1] have calls1: "length (calls ?db1) = length (calls db) + nat n"
      by (simp add: PruneOldLeaves_eq)
    from deleteEach_frame [of db ?keys] have fault1: "fault ?db1 = fault db"
      by (simp add: PruneOldLeaves_eq)
    have ok2: "\<forall>j < length ?keys. notFatal (fault ?db1 (length (calls ?db1) + j))"
    proof (intro allI impI)
      fix j assume "j < length ?keys"
      then have "nat n + j < 2 * nat n" by simp
      with twice have "notFatal (fault db (length (calls db) + (nat n + j)))"
        by blast
      then show "notFatal (fault ?db1 (length (calls ?db1) + j))"
        by (simp add: calls1 fault1 add.assoc)
    qed
    from deleteEach_ok [OF ok2] show "fst (PruneOldLeaves ?db1 n) = None"
      by (simp add: PruneOldLeaves_eq)
  }
qed

theorem PruneOldLeaves_policy_witness:
  "fst (PruneOldLeaves (emptyDB\<lparr>entries := [leafKey 0 \<mapsto> [1]]\<rparr>) 2) = None
   \<and> entries (snd (PruneOldLeaves (emptyDB\<lparr>entries := [leafKey 0 \<mapsto> [1]]\<rparr>) 2))
        (leafKey (int 0)) = None
   \<and> fst (PruneOldLeaves (snd (PruneOldLeaves (emptyDB\<lparr>entries := [leafKey 0 \<mapsto> [1]]\<rparr>) 2)) 2)
       = None
   \<and> fst (PruneOldLeaves
          (emptyDB\<lparr>entries := [leafKey 2 \<mapsto> [7]],
                    fault := (\<lambda>n. if n = 1 then Some ErrClosed else None)\<rparr>) 3)
       = Some ErrClosed
   \<and> entries (snd (PruneOldLeaves
          (emptyDB\<lparr>entries := [leafKey 2 \<mapsto> [7]],
                    fault := (\<lambda>n. if n = 1 then Some ErrClosed else None)\<rparr>) 3))
        (leafKey (int 2)) = Some [7]"
proof -
  let ?db = "emptyDB\<lparr>entries := [leafKey 0 \<mapsto> [1]]\<rparr>"
  let ?dbF = "emptyDB\<lparr>entries := [leafKey 2 \<mapsto> [7]],
                       fault := (\<lambda>n. if n = 1 then Some ErrClosed else None)\<rparr>"
  have ok: "\<forall>j < nat 2. notFatal (fault ?db (length (calls ?db) + j))"
    by (simp add: emptyDB_def notFatal_def)
  have twice: "\<forall>j < 2 * nat 2. notFatal (fault ?db (length (calls ?db) + j))"
    by (simp add: emptyDB_def notFatal_def)
  have abort: "1 < nat 3
      \<and> (\<forall>j < 1. notFatal (fault ?dbF (length (calls ?dbF) + j)))
      \<and> fault ?dbF (length (calls ?dbF) + 1) = Some ErrClosed \<and> ErrClosed \<noteq> ErrNotFound"
    by (simp add: emptyDB_def notFatal_def)
  note thm1 = PruneOldLeaves_policy [where db = ?db and n = 2 and k = 0 and e = ErrClosed]
  note thm2 = PruneOldLeaves_policy [where db = ?dbF and n = 3 and k = 1 and e = ErrClosed]
  note part1 = thm1 [THEN conjunct1, THEN mp, OF ok]
  note part3 = thm1 [THEN conjunct2, THEN conjunct2, THEN mp, OF twice]
  note part2 = thm2 [THEN conjunct2, THEN conjunct1, THEN mp, OF abort]
  from part1 have a: "fst (PruneOldLeaves ?db 2) = None"
    by (rule conjunct1)
  from part1 [THEN conjunct2, THEN conjunct2]
  have b: "entries (snd (PruneOldLeaves ?db 2)) (leafKey (int 0)) = None"
    by (rule allE [of _ 0]) (simp add: emptyDB_def)
  from part3 have c: "fst (PruneOldLeaves (snd (PruneOldLeaves ?db 2)) 2) = None"
    by (rule conjunct2)
  from part2 have d: "fst (PruneOldLeaves ?dbF 3) = Some ErrClosed"
    by (rule conjunct1)
  from part2 [THEN conjunct2, THEN conjunct2]
  have "entries (snd (PruneOldLeaves ?dbF 3)) (leafKey (int 2))
      = entries ?dbF (leafKey (int 2))"
    by (rule allE [of _ 2]) simp
  then have e: "entries (snd (PruneOldLeaves ?dbF 3)) (leafKey (int 2)) = Some [7]"
    by (simp add: emptyDB_def)
  from a b c d e show ?thesis
    by (intro conjI)
qed

subsection \<open>FetchLeafFromDB and FetchLeafConcurrent\<close>

text \<open>
  Claim C9. For every store and key \<open>FetchLeafConcurrent\<close> returns what \<open>FetchLeafFromDB\<close>
  returns, and leaves the store in the same state. All it does is the one \<open>get\<close> on
  the store: no lock is taken and no entry changes.
\<close>

theorem FetchLeafConcurrent_same:
  "FetchLeafConcurrent db key = FetchLeafFromDB db key
   \<and> calls (snd (FetchLeafConcurrent db key)) = calls db @ [GetCall key]
   \<and> entries (snd (FetchLeafConcurrent db key)) = entries db"
  by (simp add: FetchLeafConcurrent_def FetchLeafFromDB_def db_Get_def Let_def
      split: option.splits)

section \<open>Properties of root persistence\<close>

text \<open>
  Claim C3. For every root and path, when \<open>SaveRootHashToFile\<close> succeeds,
  \<open>LoadRootHashFromFile\<close> on the same path returns exactly the bytes of the root's
  digest: the whole content of the file is the digest, with nothing before or after it.
\<close>

theorem root_round_trip:
  "SaveRootHashToFile fs root filename = (None, fs') \<Longrightarrow>
     LoadRootHashFromFile fs' filename = Inr (Hash root)
     \<and> files fs' filename = Some (Hash root)"
  by (auto simp: SaveRootHashToFile_def LoadRootHashFromFile_def WriteFile_def ReadFile_def
      split: option.splits)

theorem root_round_trip_witness:
  "SaveRootHashToFile \<lparr>files = Map.empty, refused = (\<lambda>p. None)\<rparr>
       (HashTreeNode [1, 2] None None) ''merkle_root_hash.bin''
     = (None, \<lparr>files = [''merkle_root_hash.bin'' \<mapsto> [1, 2]], refused = (\<lambda>p. None)\<rparr>)
   \<and> LoadRootHashFromFile
         \<lparr>files = [''merkle_root_hash.bin'' \<mapsto> [1, 2]], refused = (\<lambda>p. None)\<rparr>
         ''merkle_root_hash.bin''
     = Inr [1, 2]"
proof -
  have saved: "SaveRootHashToFile \<lparr>files = Map.empty, refused = (\<lambda>p. None)\<rparr>
       (HashTreeNode [1, 2] None None) ''merkle_root_hash.bin''
     = (None, \<lparr>files = [''merkle_root_hash.bin'' \<mapsto> [1, 2]], refused = (\<lambda>p. None)\<rparr>)"
    by (simp add: SaveRootHashToFile_def WriteFile_def)
  from root_round_trip [OF saved] saved show ?thesis
    by simp
qed

section \<open>Properties of the memory-mapped files\<close>

lemma sint_times_GiB:
  assumes "0 < sint (x :: go_int)" and "sint x < 2 ^ 33"
  shows "sint (x * push_bit 30 1) = sint x * 2 ^ 30"
proof -
  have "sint (x * push_bit 30 1) = signed_take_bit 63 (sint x * sint (push_bit 30 1 :: go_int))"
    by (simp add: sint_word_ariths)
  also have "sint (push_bit 30 1 :: go_int) = 2 ^ 30"
    by simp
  also have "signed_take_bit 63 (sint x * 2 ^ 30) = sint x * 2 ^ 30"
  proof (rule signed_take_bit_int_eq_self)
    from assms show "- (2 ^ 63) \<le> sint x * 2 ^ 30"
      by simp
    from assms have "sint x * 2 ^ 30 < 2 ^ 33 * 2 ^ 30"
      by simp
    then show "sint x * 2 ^ 30 < 2 ^ 63"
      by simp
  qed
  finally show ?thesis .
qed

subsection \<open>setMaxFileSize\<close>

text \<open>
  Claim C8, as amended. With an argument that is not positive \<open>setMaxFileSize\<close> prints a
  warning and changes nothing else: the ceiling stays as it was, and the function has no
  result through which it could report an error. With a positive argument below \<open>2^33\<close>
  it sets the ceiling to the argument times \<open>2^30\<close> bytes and prints nothing.
\<close>

theorem setMaxFileSize_ceiling:
  "(sint sizeInGiB \<le> 0 \<longrightarrow>
      setMaxFileSize sizeInGiB g =
        g\<lparr>stdout := stdout g @ [''Invalid size. Must be greater than 0.'']\<rparr>
      \<and> maxFileSize (setMaxFileSize sizeInGiB g) = maxFileSize g)
   \<and> (0 < sint sizeInGiB \<and> sint sizeInGiB < 2 ^ 33 \<longrightarrow>
      sint (maxFileSize (setMaxFileSize sizeInGiB g)) = sint sizeInGiB * 2 ^ 30
      \<and> stdout (setMaxFileSize sizeInGiB g) = stdout g)"
proof (intro conjI impI)
  assume "sint sizeInGiB \<le> 0"
  then show "setMaxFileSize sizeInGiB g =
      g\<lparr>stdout := stdout g @ [''Invalid size. Must be greater than 0.'']\<rparr>"
    and "maxFileSize (setMaxFileSize sizeInGiB g) = maxFileSize g"
    by (simp_all add: setMaxFileSize_def)
next
  assume pos: "0 < sint sizeInGiB \<and> sint sizeInGiB < 2 ^ 33"
  then have set: "setMaxFileSize sizeInGiB g = g\<lparr>maxFileSize := sizeInGiB * push_bit 30 1\<rparr>"
    by (simp add: setMaxFileSize_def)
  from pos have "sint (sizeInGiB * push_bit 30 1) = sint sizeInGiB * 2 ^ 30"
    by (intro sint_times_GiB) simp_all
  then show "sint (maxFileSize (setMaxFileSize sizeInGiB g)) = sint sizeInGiB * 2 ^ 30"
    by (simp add: set)
  show "stdout (setMaxFileSize sizeInGiB g) = stdout g"
    by (simp add: set)
qed

theorem setMaxFileSize_ceiling_witness:
  "sint (- 1 :: go_int) \<le> 0
   \<and> maxFileSize (setMaxFileSize (- 1) initial_globals) = maxFileSize initial_globals
   \<and> 0 < sint (2 :: go_int) \<and> sint (2 :: go_int) < 2 ^ 33
   \<and> sint (maxFileSize (setMaxFileSize 2 initial_globals)) = 2147483648"
proof -
  have neg: "sint (- 1 :: go_int) \<le> 0"
    by simp
  have pos: "0 < sint (2 :: go_int) \<and> sint (2 :: go_int) < 2 ^ 33"
    by simp
  note noop = setMaxFileSize_ceiling [where sizeInGiB = "- 1" and g = initial_globals,
      THEN conjunct1, THEN mp, OF neg, THEN conjunct2]
  note set = setMaxFileSize_ceiling [where sizeInGiB = 2 and g = initial_globals,
      THEN conjunct2, THEN mp, OF pos, THEN conjunct1]
  from set have "sint (maxFileSize (setMaxFileSize 2 initial_globals)) = 2147483648"
    by simp
  with noop neg pos show ?thesis
    by (intro conjI) simp_all
qed

text \<open>
  The claim as it was stated, for every positive argument, fails at 8589934592
  (\<open>2^33\<close>) GiB: the product \<open>2^63\<close> is not a value of the type \<open>int\<close>, and the
  ceiling the multiplication leaves is \<open>-2^63\<close>.
\<close>

theorem setMaxFileSize_overflow:
  "0 < sint (8589934592 :: go_int)
   \<and> sint (maxFileSize (setMaxFileSize 8589934592 initial_globals)) = - 9223372036854775808
   \<and> sint (maxFileSize (setMaxFileSize 8589934592 initial_globals))
       \<noteq> sint (8589934592 :: go_int) * 2 ^ 30"
  by (simp add: setMaxFileSize_def initial_globals_def)

subsection \<open>MemoryMapFile\<close>

text \<open>
  Claim C7. \<open>MemoryMapFile\<close> fails with the error of a file that exceeds the limit
  exactly when the file opens, its size is read, and the size is strictly greater than
  the ceiling. A file whose size equals the ceiling is mapped: what the mapping yields
  is returned. A file one byte larger than the ceiling is refused with that error, and
  no mapping is asked for: the calls made are open, stat and close.
\<close>

theorem MemoryMapFile_ceiling:
  "((\<exists>limit. fst (MemoryMapFile h g filename) = Inl (ErrExceedsLimit limit)) \<longleftrightarrow>
      (\<exists>file size'. os_Open h filename = Inr file \<and> file_Stat h file = Inr size'
         \<and> sint (maxFileSize g) < sint size'))
   \<and> (os_Open h filename = Inr file \<and> file_Stat h file = Inr size'
       \<and> sint size' = sint (maxFileSize g) \<and> syscall_Mmap h file size' = Inr data \<longrightarrow>
      MemoryMapFile h g filename =
        (Inr data, [OpenCall filename, StatCall file, MmapCall file size', CloseCall file]))
   \<and> (os_Open h filename = Inr file \<and> file_Stat h file = Inr size'
       \<and> sint size' = sint (maxFileSize g) + 1 \<longrightarrow>
      MemoryMapFile h g filename =
        (Inl (ErrExceedsLimit (maxFileSize g)),
         [OpenCall filename, StatCall file, CloseCall file]))"
proof (intro conjI impI)
  show "(\<exists>limit. fst (MemoryMapFile h g filename) = Inl (ErrExceedsLimit limit)) \<longleftrightarrow>
      (\<exists>file size'. os_Open h filename = Inr file \<and> file_Stat h file = Inr size'
         \<and> sint (maxFileSize g) < sint size')"
    by (simp add: MemoryMapFile_def split: sum.splits)
next
  assume "os_Open h filename = Inr file \<and> file_Stat h file = Inr size'
       \<and> sint size' = sint (maxFileSize g) \<and> syscall_Mmap h file size' = Inr data"
  then show "MemoryMapFile h g filename =
        (Inr data, [OpenCall filename, StatCall file, MmapCall file size', CloseCall file])"
    by (simp add: MemoryMapFile_def)
next
  assume "os_Open h filename = Inr file \<and> file_Stat h file = Inr size'
       \<and> sint size' = sint (maxFileSize g) + 1"
  then show "MemoryMapFile h g filename =
        (Inl (ErrExceedsLimit (maxFileSize g)),
         [OpenCall filename, StatCall file, CloseCall file])"
    by (simp add: MemoryMapFile_def)
qed

theorem MemoryMapFile_ceiling_witness:
  "MemoryMapFile (hostWith 1073741824) initial_globals ''leaves.bin'' =
     (Inr (replicate (unat (1073741824 :: go_int)) 0),
      [OpenCall ''leaves.bin'', StatCall 3, MmapCall 3 1073741824, CloseCall 3])
   \<and> MemoryMapFile (hostWith 1073741825) initial_globals ''leaves.bin'' =
     (Inl (ErrExceedsLimit (maxFileSize initial_globals)),
      [OpenCall ''leaves.bin'', StatCall 3, CloseCall 3])"
proof -
  have at: "os_Open (hostWith 1073741824) ''leaves.bin'' = Inr 3
      \<and> file_Stat (hostWith 1073741824) 3 = Inr 1073741824
      \<and> sint (1073741824 :: go_int) = sint (maxFileSize initial_globals)
      \<and> syscall_Mmap (hostWith 1073741824) 3 1073741824
          = Inr (replicate (unat (1073741824 :: go_int)) 0)"
    by (simp add: hostWith_def initial_globals_def)
  have over: "os_Open (hostWith 1073741825) ''leaves.bin'' = Inr 3
      \<and> file_Stat (hostWith 1073741825) 3 = Inr 1073741825
      \<and> sint (1073741825 :: go_int) = sint (maxFileSize initial_globals) + 1"
    by (simp add: hostWith_def initial_globals_def)
  note mapped = MemoryMapFile_ceiling [of "hostWith 1073741824" initial_globals
      "''leaves.bin''" 3 1073741824 "replicate (unat (1073741824 :: go_int)) 0",
      THEN conjunct2, THEN conjunct1, THEN mp, OF at]
  note rejected = MemoryMapFile_ceiling [of "hostWith 1073741825" initial_globals
      "''leaves.bin''" 3 1073741825 "[]",
      THEN conjunct2, THEN conjunct2, THEN mp, OF over]
  from mapped rejected show ?thesis
    by (rule conjI)
qed

section \<open>The scenario of two leaves\<close>

text \<open>
  The leaves \<open>[a, b]\<close> give the root \<open>hash (hash a @ hash b)\<close> over the two leaf nodes.
  Saved in an empty store that does not fail, they are found under the keys \<open>leaf-0\<close>
  and \<open>leaf-1\<close>: fetching \<open>leaf-0\<close> returns \<open>a\<close> and fetching \<open>leaf-1\<close> returns \<open>b\<close>.
\<close>

lemma leafKey_1: "leafKey 1 = ''leaf-1''"
  by code_simp

theorem two_leaves_scenario:
  "BuildHashTree Sum256 [a, b] =
     Inr (HashTreeNode (computeHash Sum256 (computeHash Sum256 a @ computeHash Sum256 b))
            (Some (HashTreeNode (computeHash Sum256 a) None None))
            (Some (HashTreeNode (computeHash Sum256 b) None None)))
   \<and> fst (SaveLeavesToDB emptyDB [a, b]) = None
   \<and> fst (FetchLeafFromDB (snd (SaveLeavesToDB emptyDB [a, b])) ''leaf-0'') = Inr a
   \<and> fst (FetchLeafFromDB (snd (SaveLeavesToDB emptyDB [a, b])) ''leaf-1'') = Inr b"
proof -
  have tree: "BuildHashTree Sum256 [a, b] =
     Inr (HashTreeNode (computeHash Sum256 (computeHash Sum256 a @ computeHash Sum256 b))
            (Some (HashTreeNode (computeHash Sum256 a) None None))
            (Some (HashTreeNode (computeHash Sum256 b) None None)))"
    by (simp add: BuildHashTree_def leafNodes_def reduceLoop_more reduceLoop_single)
  have saved: "SaveLeavesToDB emptyDB [a, b] =
      (None, emptyDB\<lparr>calls := [PutCall ''leaf-0'' a, PutCall ''leaf-1'' b],
                      entries := [''leaf-0'' \<mapsto> a, ''leaf-1'' \<mapsto> b]\<rparr>)"
    by (simp add: SaveLeavesToDB_def db_Put_def emptyDB_def leafKey_0 leafKey_1 Let_def)
  show ?thesis
    unfolding saved by (simp add: tree FetchLeafFromDB_def db_Get_def emptyDB_def Let_def)
qed

text \<open>
  The key of a leaf is \<open>leaf-\<close> followed by its index in decimal, with no leading
  zero, and two indices have the same key only when they are equal.
\<close>

theorem leaf_keys_unique:
  "(leafKey (int i) = leafKey (int j) \<longleftrightarrow> i = j)
   \<and> leafKey 0 = ''leaf-0'' \<and> leafKey 7 = ''leaf-7'' \<and> leafKey 12 = ''leaf-12''
   \<and> leafKey 305 = ''leaf-305''"
proof -
  have "leafKey 7 = ''leaf-7''" and "leafKey 305 = ''leaf-305''"
    by code_simp+
  then show ?thesis
    by (simp add: leafKey_inject leafKey_0 leafKey_12)
qed

end
